theory Spec2Isabelle
  imports Complex_Main "HOL-Library.Stream" "HOL-Library.Product_Lexorder"
begin

section \<open>Data model of \<^verbatim>\<open>types.ts\<close>\<close>

text \<open>
  Vertex identifiers are the positive integers handed out by the graph constructors; they
  are modelled as \<open>nat\<close>. The record fields keep the names of the source, so a variable
  holding the number of colors is written \<open>K\<close> and one holding a coloring \<open>col\<close>. Colors, \<open>k\<close>, iteration counters and the tabu tenure are JavaScript
  numbers holding integers and are modelled as \<open>int\<close>. A conflict count is the result of a
  division by two and is modelled as \<open>rat\<close>.

  A \<^verbatim>\<open>Coloring\<close> is a JavaScript object with integer keys. It is modelled as an association
  list; \<open>getColor\<close> is the property read \<^verbatim>\<open>coloring[v]\<close> (\<open>None\<close> is \<^verbatim>\<open>undefined\<close>) and
  \<open>setColor\<close> the property write \<^verbatim>\<open>coloring[v] = c\<close>, which keeps integer keys in ascending
  order as the enumeration order of a JavaScript object does.

  The adjacency \<^verbatim>\<open>Map<number, number[]>\<close> is an association list in insertion order;
  \<open>neighborsOf\<close> is \<^verbatim>\<open>adjacency.get(u) || []\<close>. The fields \<^verbatim>\<open>links\<close>, \<^verbatim>\<open>x\<close> and \<^verbatim>\<open>y\<close> are
  not read by any algorithm and are left out.
\<close>

type_synonym Coloring = "(nat \<times> int) list"

definition getColor :: "Coloring \<Rightarrow> nat \<Rightarrow> int option" where
  "getColor col v = map_of col v"

fun setColor :: "nat \<Rightarrow> int \<Rightarrow> Coloring \<Rightarrow> Coloring" where
  "setColor v c [] = [(v, c)]"
| "setColor v c ((w, d) # rest) =
     (if v = w then (v, c) # rest
      else if v < w then (v, c) # (w, d) # rest
      else (w, d) # setColor v c rest)"

type_synonym Adjacency = "(nat \<times> nat list) list"

record GraphData =
  nodes :: "nat list"
  adjacency :: Adjacency

record AlgorithmParams =
  k :: int
  popSize :: int
  maxIterHEA :: int
  alpha :: rat
  tabuTenure :: int
  maxIterTabu :: int

record Individual =
  coloring :: Coloring
  conflicts :: rat

definition neighborsOf :: "Adjacency \<Rightarrow> nat \<Rightarrow> nat list" where
  "neighborsOf adj u = (case map_of adj u of None \<Rightarrow> [] | Some ns \<Rightarrow> ns)"

text \<open>The errors the JavaScript runtime raises in this code.\<close>

datatype error = TypeError | RangeError

subsection \<open>The random source\<close>

text \<open>
  \<^verbatim>\<open>Math.random()\<close> returns a number in \<open>[0, 1)\<close>. The source of randomness is an infinite
  stream of such numbers, threaded through every function that draws from it.
\<close>

typedef prob = "{r :: rat. 0 \<le> r \<and> r < 1}"
  by (rule exI [of _ 0]) simp

setup_lifting type_definition_prob

lift_definition probZero :: prob is 0
  by simp

lift_definition probHalf :: prob is "1 / 2"
  by simp

type_synonym rng = "prob stream"

definition mathRandom :: "rng \<Rightarrow> rat \<times> rng" where
  "mathRandom g = (Rep_prob (shd g), stl g)"

text \<open>\<^verbatim>\<open>Math.floor(Math.random() * n)\<close>\<close>

definition randomBelow :: "int \<Rightarrow> rng \<Rightarrow> int \<times> rng" where
  "randomBelow n g = (case mathRandom g of (r, g') \<Rightarrow> (\<lfloor>r * of_int n\<rfloor>, g'))"

text \<open>\<^verbatim>\<open>Math.floor(Math.random() * k) + 1\<close>\<close>

definition randomColor :: "int \<Rightarrow> rng \<Rightarrow> int \<times> rng" where
  "randomColor K g = (case randomBelow K g of (i, g') \<Rightarrow> (i + 1, g'))"

section \<open>Conflict evaluator\<close>

definition countConflicts :: "Coloring \<Rightarrow> Adjacency \<Rightarrow> rat" where
  "countConflicts col adj =
     of_nat (sum_list (map (\<lambda>(node, neighbors).
        length (filter (\<lambda>neighbor. getColor col node = getColor col neighbor
                                  \<and> getColor col node \<noteq> Some 0) neighbors)) adj)) / 2"

subsection \<open>Well-formed graphs\<close>

text \<open>A \<^verbatim>\<open>Map\<close> holds every key once.\<close>

definition distinctKeys :: "Adjacency \<Rightarrow> bool" where
  "distinctKeys adj = distinct (map fst adj)"

text \<open>Every pair is listed as often from one end as from the other.\<close>

definition symmetric :: "Adjacency \<Rightarrow> bool" where
  "symmetric adj =
     (\<forall>(u, ns) \<in> set adj. \<forall>v \<in> set ns. count_list ns v = count_list (neighborsOf adj v) u)"

definition noSelfLoops :: "Adjacency \<Rightarrow> bool" where
  "noSelfLoops adj = (\<forall>(u, ns) \<in> set adj. u \<notin> set ns)"

definition noDuplicateEdges :: "Adjacency \<Rightarrow> bool" where
  "noDuplicateEdges adj = (\<forall>(u, ns) \<in> set adj. distinct ns)"

definition totalOn :: "Coloring \<Rightarrow> Adjacency \<Rightarrow> bool" where
  "totalOn col adj = (\<forall>(u, ns) \<in> set adj. getColor col u \<noteq> None)"

subsection \<open>The brute-force recount over the edge set\<close>

text \<open>Every undirected edge once, written from its smaller endpoint.\<close>

definition edgeList :: "Adjacency \<Rightarrow> (nat \<times> nat) list" where
  "edgeList adj = concat (map (\<lambda>(u, ns). map (Pair u) (filter (\<lambda>v. u < v) ns)) adj)"

definition sameNonZeroColor :: "Coloring \<Rightarrow> nat \<Rightarrow> nat \<Rightarrow> bool" where
  "sameNonZeroColor col u v =
     (case getColor col u of None \<Rightarrow> False
      | Some c \<Rightarrow> c \<noteq> 0 \<and> getColor col v = Some c)"

definition bruteForceConflicts :: "Coloring \<Rightarrow> Adjacency \<Rightarrow> nat" where
  "bruteForceConflicts col adj =
     length (filter (\<lambda>(u, v). sameNonZeroColor col u v) (edgeList adj))"

text \<open>Every undirected edge once more, written from its larger endpoint (used in proofs).\<close>

definition downList :: "Adjacency \<Rightarrow> (nat \<times> nat) list" where
  "downList adj = concat (map (\<lambda>(u, ns). map (Pair u) (filter (\<lambda>v. v < u) ns)) adj)"

subsection \<open>The evaluator agrees with the recount\<close>


lemma neighborsOf_mem:
  "v \<in> set (neighborsOf adj u) \<Longrightarrow> (u, neighborsOf adj u) \<in> set adj"
  by (auto simp: neighborsOf_def split: option.splits dest: map_of_SomeD)

lemma symmetric_mem:
  assumes "symmetric adj" "(u, ns) \<in> set adj" "v \<in> set ns"
  shows "\<exists>ms. (v, ms) \<in> set adj \<and> u \<in> set ms"
proof -
  from assms have "count_list (neighborsOf adj v) u = count_list ns v"
    by (auto simp: symmetric_def)
  moreover from assms(3) have "count_list ns v \<noteq> 0"
    by (simp add: count_list_0_iff)
  ultimately have "count_list (neighborsOf adj v) u \<noteq> 0" by simp
  then have "u \<in> set (neighborsOf adj v)"
    by (simp add: count_list_0_iff)
  then show ?thesis
    using neighborsOf_mem by blast
qed


lemma set_edgeList: "set (edgeList adj) = {(u, v). u < v \<and> (\<exists>ns. (u, ns) \<in> set adj \<and> v \<in> set ns)}"
  by (auto simp: edgeList_def)

lemma set_downList: "set (downList adj) = {(u, v). v < u \<and> (\<exists>ns. (u, ns) \<in> set adj \<and> v \<in> set ns)}"
  by (auto simp: downList_def)

lemma distinct_concat_keys:
  assumes "distinct (map fst adj)" "\<forall>(u, ns) \<in> set adj. distinct ns"
  shows "distinct (concat (map (\<lambda>(u, ns). map (Pair u) (filter (Q u) ns)) adj))"
  using assms
proof (induction adj)
  case Nil then show ?case by simp
next
  case (Cons a adj)
  obtain u ns where a: "a = (u, ns)" by (cases a)
  let ?rest = "concat (map (\<lambda>(u, ns). map (Pair u) (filter (Q u) ns)) adj)"
  from Cons.prems have u: "u \<notin> fst ` set adj" by (simp add: a)
  have "fst ` set ?rest \<subseteq> fst ` set adj"
  proof
    fix w assume "w \<in> fst ` set ?rest"
    then obtain m where "(w, m) \<in> set adj" by auto
    then show "w \<in> fst ` set adj" by (rule rev_image_eqI) simp
  qed
  with u have "u \<notin> fst ` set ?rest" by blast
  then have disj: "set (map (Pair u) (filter (Q u) ns)) \<inter> set ?rest = {}"
    by (auto simp: image_iff)
  from Cons.prems have "distinct (map (Pair u) (filter (Q u) ns))"
    by (simp add: a distinct_map inj_on_def)
  moreover from Cons have "distinct ?rest" by simp
  ultimately show ?case using disj by (simp add: a)
qed

lemma distinct_edgeList:
  "distinctKeys adj \<Longrightarrow> noDuplicateEdges adj \<Longrightarrow> distinct (edgeList adj)"
  unfolding edgeList_def distinctKeys_def noDuplicateEdges_def
  by (rule distinct_concat_keys)

lemma distinct_downList:
  "distinctKeys adj \<Longrightarrow> noDuplicateEdges adj \<Longrightarrow> distinct (downList adj)"
  unfolding downList_def distinctKeys_def noDuplicateEdges_def
  by (rule distinct_concat_keys)

lemma directed_split:
  assumes "\<forall>(u, ns) \<in> set adj. u \<notin> set ns"
  shows "sum_list (map (\<lambda>(u, ns). length (filter (P u) ns)) adj)
       = length (filter (\<lambda>(u, v). P u v) (edgeList adj)) + length (filter (\<lambda>(u, v). P u v) (downList adj))"
  using assms
proof (induction adj)
  case Nil then show ?case by (simp add: edgeList_def downList_def)
next
  case (Cons a adj)
  obtain u ns where a: "a = (u, ns)" by (cases a)
  from Cons.prems have u: "u \<notin> set ns" by (simp add: a)
  have "length (filter (P u) ns) = length (filter (P u) (filter (\<lambda>v. u < v) ns)) + length (filter (P u) (filter (\<lambda>v. v < u) ns))"
    using u by (induction ns) auto
  moreover have "edgeList (a # adj) = map (Pair u) (filter (\<lambda>v. u < v) ns) @ edgeList adj"
    by (simp add: edgeList_def a)
  moreover have "downList (a # adj) = map (Pair u) (filter (\<lambda>v. v < u) ns) @ downList adj"
    by (simp add: downList_def a)
  moreover have "\<And>xs. length (filter (\<lambda>(u, v). P u v) (map (Pair u) xs)) = length (filter (P u) xs)"
    by (simp add: filter_map comp_def)
  ultimately show ?case using Cons by (simp add: a)
qed

lemma down_up_card:
  assumes "distinctKeys adj" "symmetric adj" "noDuplicateEdges adj"
      and sym: "\<And>u v. P u v = P v u"
  shows "length (filter (\<lambda>(u, v). P u v) (downList adj)) = length (filter (\<lambda>(u, v). P u v) (edgeList adj))"
proof -
  let ?D = "{x \<in> set (downList adj). case x of (u, v) \<Rightarrow> P u v}"
  let ?E = "{x \<in> set (edgeList adj). case x of (u, v) \<Rightarrow> P u v}"
  have "prod.swap ` ?D = ?E"
  proof (intro set_eqI iffI)
    fix x assume "x \<in> prod.swap ` ?D"
    then obtain u v ns where x: "x = (v, u)" "v < u" "(u, ns) \<in> set adj" "v \<in> set ns" "P u v"
      by (auto simp: set_downList)
    then obtain ms where "(v, ms) \<in> set adj" "u \<in> set ms"
      using symmetric_mem[OF assms(2)] by blast
    moreover have "P v u" using x(5) sym[of u v] by simp
    ultimately show "x \<in> ?E" using x by (auto simp: set_edgeList)
  next
    fix x assume "x \<in> ?E"
    then obtain u v ns where x: "x = (u, v)" "u < v" "(u, ns) \<in> set adj" "v \<in> set ns" "P u v"
      by (auto simp: set_edgeList)
    then obtain ms where "(v, ms) \<in> set adj" "u \<in> set ms"
      using symmetric_mem[OF assms(2)] by blast
    moreover have "P v u" using x(5) sym[of u v] by simp
    ultimately have "(v, u) \<in> ?D" using x by (auto simp: set_downList)
    then show "x \<in> prod.swap ` ?D" unfolding x by force
  qed
  then have "card ?E = card ?D"
    using card_image[OF inj_swap, of ?D] by simp
  moreover have "length (filter (\<lambda>(u, v). P u v) (downList adj)) = card ?D"
    using distinct_downList[OF assms(1,3)] by (simp add: distinct_length_filter Int_def conj_commute)
  moreover have "length (filter (\<lambda>(u, v). P u v) (edgeList adj)) = card ?E"
    using distinct_edgeList[OF assms(1,3)] by (simp add: distinct_length_filter Int_def conj_commute)
  ultimately show ?thesis by simp
qed

lemma sameNonZero_iff:
  "getColor col u \<noteq> None \<Longrightarrow>
   sameNonZeroColor col u v \<longleftrightarrow> (getColor col u = getColor col v \<and> getColor col u \<noteq> Some 0)"
  by (auto simp: sameNonZeroColor_def split: option.splits)

text \<open>
  C6. On a graph whose adjacency map is symmetric, without self-loops and without duplicate
  edges, and for a coloring that is total on its vertices, \<open>countConflicts\<close> is the number
  of edges whose two endpoints hold the same non-zero color.
\<close>

theorem countConflicts_brute_force:
  assumes "distinctKeys adj" "symmetric adj" "noSelfLoops adj" "noDuplicateEdges adj"
      and "totalOn col adj"
  shows "countConflicts col adj = of_nat (bruteForceConflicts col adj)"
proof -
  let ?P = "\<lambda>u v. getColor col u = getColor col v \<and> getColor col u \<noteq> Some 0"
  have P: "\<And>u v. ?P u v = ?P v u" by auto
  have "sum_list (map (\<lambda>(u, ns). length (filter (?P u) ns)) adj)
       = 2 * length (filter (\<lambda>(u, v). ?P u v) (edgeList adj))"
    using directed_split[of adj ?P] down_up_card[OF assms(1,2,4), of ?P, OF P] assms(3)
    by (simp add: noSelfLoops_def)
  moreover have "filter (\<lambda>(u, v). ?P u v) (edgeList adj) = filter (\<lambda>(u, v). sameNonZeroColor col u v) (edgeList adj)"
  proof (rule filter_cong[OF refl])
    fix x assume "x \<in> set (edgeList adj)"
    then obtain u v ns where "x = (u, v)" "(u, ns) \<in> set adj" by (auto simp: set_edgeList)
    then have x: "x = (u, v)" and "(u, ns) \<in> set adj" by simp_all
    with assms(5) have "getColor col u \<noteq> None" by (force simp: totalOn_def)
    then show "(case x of (u, v) \<Rightarrow> ?P u v) = (case x of (u, v) \<Rightarrow> sameNonZeroColor col u v)"
      by (simp add: x sameNonZero_iff)
  qed
  ultimately show ?thesis
    by (simp add: countConflicts_def bruteForceConflicts_def)
qed

theorem countConflicts_brute_force_witness:
  "distinctKeys [(1, [2, 3]), (2, [1, 3]), (3, [1, 2])]
   \<and> countConflicts [(1, 1), (2, 1), (3, 2)] [(1, [2, 3]), (2, [1, 3]), (3, [1, 2])] = 1
   \<and> bruteForceConflicts [(1, 1), (2, 1), (3, 2)] [(1, [2, 3]), (2, [1, 3]), (3, [1, 2])] = 1"
proof -
  let ?adj = "[(1, [2, 3]), (2, [1, 3]), (3, [1, 2])] :: Adjacency"
  let ?col = "[(1, 1), (2, 1), (3, 2)] :: Coloring"
  have d: "distinctKeys ?adj" by (simp add: distinctKeys_def)
  have s: "symmetric ?adj" by (simp add: symmetric_def neighborsOf_def)
  have l: "noSelfLoops ?adj" by (simp add: noSelfLoops_def)
  have e: "noDuplicateEdges ?adj" by (simp add: noDuplicateEdges_def)
  have t: "totalOn ?col ?adj" by (simp add: totalOn_def getColor_def)
  have b: "bruteForceConflicts ?col ?adj = 1"
    by (simp add: bruteForceConflicts_def edgeList_def sameNonZeroColor_def getColor_def)
  from countConflicts_brute_force [OF d s l e t] b d show ?thesis by simp
qed

section \<open>Tabu refiner: \<^verbatim>\<open>runTabuCol\<close>\<close>

text \<open>
  The local variables of one call. \<open>bestSConflicts\<close> is the source's local \<^verbatim>\<open>bestConflicts\<close>
  (the conflict count of \<open>bestS\<close>); the name \<open>bestConflicts\<close> is kept for the field of the
  result of \<^verbatim>\<open>runHEAStep\<close>. The tabu matrix is read only at the entries the source
  initialises to 0 (a vertex of the graph and a color in \<open>1..k\<close>), so it is a total table
  that starts at 0; it is indexed by the color read from the coloring, which may be
  \<^verbatim>\<open>undefined\<close>.
\<close>

record TabuState =
  currentS :: Coloring
  bestS :: Coloring
  currentConflicts :: rat
  bestSConflicts :: rat
  tabuMatrix :: "nat \<Rightarrow> int option \<Rightarrow> int"

text \<open>\<open>bestMove\<close>; \<open>None\<close> is the initial \<^verbatim>\<open>{ node: -1, ..., delta: Infinity }\<close>.\<close>

record Move =
  node :: nat
  oldColor :: "int option"
  newColor :: int
  delta :: int

text \<open>The loop over the keys of the copied seed: a color above \<open>k\<close> is redrawn.\<close>

definition fixColor :: "int \<Rightarrow> nat \<Rightarrow> Coloring \<times> rng \<Rightarrow> Coloring \<times> rng" where
  "fixColor K key = (\<lambda>(cur, g).
     (case getColor cur key of
        None \<Rightarrow> (cur, g)
      | Some c \<Rightarrow>
          if c > K then (case randomColor K g of (c', g') \<Rightarrow> (setColor key c' cur, g'))
          else (cur, g)))"

definition ensureColors :: "int \<Rightarrow> Coloring \<Rightarrow> rng \<Rightarrow> Coloring \<times> rng" where
  "ensureColors K initialColoring g =
     fold (fixColor K) (map fst initialColoring) (initialColoring, g)"

definition conflictedNodes :: "GraphData \<Rightarrow> Coloring \<Rightarrow> nat list" where
  "conflictedNodes graph cur =
     filter (\<lambda>n. list_ex (\<lambda>neigh. getColor cur neigh = getColor cur n)
                   (neighborsOf (adjacency graph) n))
       (nodes graph)"

text \<open>The number of neighbors that hold a given color (the two local counters of the source).\<close>

definition nodeConflicts :: "Coloring \<Rightarrow> nat list \<Rightarrow> int option \<Rightarrow> int" where
  "nodeConflicts cur neighbors c = int (length (filter (\<lambda>v. getColor cur v = c) neighbors))"

text \<open>The candidate move of vertex \<open>u\<close> to \<open>color\<close>, with its \<open>delta\<close>.\<close>

definition candidate :: "GraphData \<Rightarrow> TabuState \<Rightarrow> nat \<Rightarrow> int \<Rightarrow> Move" where
  "candidate graph st u color =
     (let neighbors = neighborsOf (adjacency graph) u;
          old = getColor (currentS st) u
      in \<lparr>node = u, oldColor = old, newColor = color,
          delta = nodeConflicts (currentS st) neighbors (Some color)
                  - nodeConflicts (currentS st) neighbors old\<rparr>)"

text \<open>The body of the loop over the colors \<open>1..k\<close> for one conflicted vertex \<open>u\<close>.\<close>

definition considerColor ::
  "GraphData \<Rightarrow> TabuState \<Rightarrow> int \<Rightarrow> nat \<Rightarrow> int \<Rightarrow> Move option \<times> rng \<Rightarrow> Move option \<times> rng" where
  "considerColor graph st iter u color = (\<lambda>(bestMove, g).
     (if Some color = getColor (currentS st) u then (bestMove, g)
      else
        let move = candidate graph st u color;
            isTabu = (tabuMatrix st u (Some color) \<ge> iter);
            isAspiration = (currentConflicts st + of_int (delta move) < bestSConflicts st)
        in if \<not> isTabu \<or> isAspiration then
             (case bestMove of
                None \<Rightarrow> (Some move, g)
              | Some bm \<Rightarrow>
                  if delta move < delta bm then (Some move, g)
                  else if delta move = delta bm then
                    (case mathRandom g of (r, g') \<Rightarrow>
                       if r < 1 / 2 then (Some move, g') else (bestMove, g'))
                  else (bestMove, g))
           else (bestMove, g)))"

definition exploreNode ::
  "GraphData \<Rightarrow> int \<Rightarrow> TabuState \<Rightarrow> int \<Rightarrow> nat \<Rightarrow> Move option \<times> rng \<Rightarrow> Move option \<times> rng" where
  "exploreNode graph K st iter u = fold (considerColor graph st iter u) [1..K]"

definition findBestMove ::
  "GraphData \<Rightarrow> int \<Rightarrow> TabuState \<Rightarrow> int \<Rightarrow> nat list \<Rightarrow> rng \<Rightarrow> Move option \<times> rng" where
  "findBestMove graph K st iter conflicted g =
     fold (exploreNode graph K st iter) conflicted (None, g)"

text \<open>The branch that applies the chosen move.\<close>

definition applyMove :: "int \<Rightarrow> int \<Rightarrow> TabuState \<Rightarrow> Move \<Rightarrow> rng \<Rightarrow> TabuState \<times> rng" where
  "applyMove tenure iter st bm g =
     (let cur = setColor (node bm) (newColor bm) (currentS st);
          conf = currentConflicts st + of_int (delta bm)
      in case randomBelow 2 g of (jitter, g') \<Rightarrow>
        let tabu = (tabuMatrix st)
                     (node bm := (tabuMatrix st (node bm)) (oldColor bm := iter + tenure + jitter));
            st' = st\<lparr>currentS := cur, currentConflicts := conf, tabuMatrix := tabu\<rparr>
        in (if conf < bestSConflicts st then st'\<lparr>bestSConflicts := conf, bestS := cur\<rparr> else st',
            g'))"

text \<open>The branch taken when no move was eligible: a random vertex gets a random color.\<close>

definition randomMove ::
  "GraphData \<Rightarrow> int \<Rightarrow> TabuState \<Rightarrow> nat list \<Rightarrow> rng \<Rightarrow> TabuState \<times> rng" where
  "randomMove graph K st conflicted g =
     (case randomBelow (int (length conflicted)) g of (i, g') \<Rightarrow>
      case randomColor K g' of (randColor, g'') \<Rightarrow>
        let u = conflicted ! nat i in
        if Some randColor \<noteq> getColor (currentS st) u then
          let cur = setColor u randColor (currentS st)
          in (st\<lparr>currentS := cur, currentConflicts := countConflicts cur (adjacency graph)\<rparr>, g'')
        else (st, g''))"

text \<open>One pass through the body of the main loop; \<open>None\<close> is a \<^verbatim>\<open>break\<close>.\<close>

definition tabuIteration ::
  "GraphData \<Rightarrow> int \<Rightarrow> int \<Rightarrow> int \<Rightarrow> TabuState \<times> rng \<Rightarrow> (TabuState \<times> rng) option" where
  "tabuIteration graph K tenure iter = (\<lambda>(st, g).
     if bestSConflicts st = 0 then None
     else
       let conflicted = conflictedNodes graph (currentS st) in
       if length conflicted = 0 then None
       else
         (case findBestMove graph K st iter conflicted g of
            (Some bm, g') \<Rightarrow> Some (applyMove tenure iter st bm g')
          | (None, g') \<Rightarrow> Some (randomMove graph K st conflicted g')))"

function tabuLoop ::
  "GraphData \<Rightarrow> int \<Rightarrow> int \<Rightarrow> int \<Rightarrow> int \<Rightarrow> TabuState \<times> rng \<Rightarrow> TabuState \<times> rng" where
  "tabuLoop graph K maxIter tenure iter sg =
     (if iter \<le> maxIter then
        (case tabuIteration graph K tenure iter sg of
           None \<Rightarrow> sg
         | Some sg' \<Rightarrow> tabuLoop graph K maxIter tenure (iter + 1) sg')
      else sg)"
  by pat_completeness auto
termination
  by (relation "measure (\<lambda>(graph, K, maxIter, tenure, iter, sg). nat (maxIter + 1 - iter))") auto

declare tabuLoop.simps [simp del]

definition initialState :: "GraphData \<Rightarrow> Coloring \<Rightarrow> TabuState" where
  "initialState graph cur =
     \<lparr>currentS = cur, bestS = cur,
      currentConflicts = countConflicts cur (adjacency graph),
      bestSConflicts = countConflicts cur (adjacency graph),
      tabuMatrix = (\<lambda>n c. 0)\<rparr>"

definition runTabuCol ::
  "GraphData \<Rightarrow> int \<Rightarrow> Coloring \<Rightarrow> int \<Rightarrow> int \<Rightarrow> rng \<Rightarrow> Individual \<times> rng" where
  "runTabuCol graph K initialColoring maxIter tenure g =
     (case ensureColors K initialColoring g of (cur, g') \<Rightarrow>
      case tabuLoop graph K maxIter tenure 1 (initialState graph cur, g') of (st, g'') \<Rightarrow>
        (\<lparr>coloring = bestS st, conflicts = bestSConflicts st\<rparr>, g''))"

section \<open>Partition crossover: \<^verbatim>\<open>gpxCrossover\<close>\<close>

text \<open>
  \<^verbatim>\<open>getClasses\<close> builds a \<^verbatim>\<open>Map\<close> from each color of \<open>1..k\<close> to the set of vertices that hold
  it; the map is an association list in insertion order, a set of vertices the list of its
  members in insertion order.
\<close>

definition getClasses :: "Coloring \<Rightarrow> int \<Rightarrow> (int \<times> nat list) list" where
  "getClasses col K =
     map (\<lambda>c. (c, map fst (filter (\<lambda>(nodeId, color). color = c) col))) [1..K]"

text \<open>\<^verbatim>\<open>new Set(array)\<close>: the members in the order of their first occurrence.\<close>

definition newSet :: "nat list \<Rightarrow> nat list" where
  "newSet xs = rev (remdups (rev xs))"

text \<open>The \<^verbatim>\<open>forEach\<close> over the parent's classes that finds \<open>bestColor\<close>, starting from -1.\<close>

definition countUnassigned :: "nat list \<Rightarrow> nat list \<Rightarrow> int" where
  "countUnassigned unassigned nodesInClass =
     int (length (filter (\<lambda>nid. nid \<in> set unassigned) nodesInClass))"

definition pickClass :: "nat list \<Rightarrow> (int \<times> nat list) list \<Rightarrow> int \<times> int" where
  "pickClass unassigned parentClasses =
     fold (\<lambda>(color, nodesInClass) (bestColor, bestCount).
             if countUnassigned unassigned nodesInClass > bestCount
             then (color, countUnassigned unassigned nodesInClass)
             else (bestColor, bestCount))
       parentClasses (- 1, - 1)"

text \<open>The \<^verbatim>\<open>forEach\<close> over the chosen class that colors its unassigned members with \<open>c\<close>.\<close>

definition assignClass :: "int \<Rightarrow> nat list \<Rightarrow> Coloring \<times> nat list \<Rightarrow> Coloring \<times> nat list" where
  "assignClass c nodesInClass =
     fold (\<lambda>nid (child, unassigned).
             if nid \<in> set unassigned then (setColor nid c child, removeAll nid unassigned)
             else (child, unassigned))
       nodesInClass"

text \<open>The body of the loop over the slots \<open>c = 1..k\<close>.\<close>

definition gpxSlot ::
  "(int \<times> nat list) list \<Rightarrow> (int \<times> nat list) list \<Rightarrow> int
   \<Rightarrow> Coloring \<times> nat list \<times> nat \<Rightarrow> Coloring \<times> nat list \<times> nat" where
  "gpxSlot classes1 classes2 c = (\<lambda>(child, unassigned, currentParent).
     (let parentClasses = (if currentParent = 1 then classes1 else classes2);
          bestColor = fst (pickClass unassigned parentClasses);
          (child', unassigned') =
            (if bestColor \<noteq> - 1 then
               (case map_of parentClasses bestColor of
                  None \<Rightarrow> (child, unassigned)
                | Some nodesInClass \<Rightarrow> assignClass c nodesInClass (child, unassigned))
             else (child, unassigned))
      in (child', unassigned', if currentParent = 1 then 2 else 1)))"

text \<open>The final \<^verbatim>\<open>forEach\<close> over the vertices still unassigned.\<close>

definition assignRandom :: "int \<Rightarrow> nat list \<Rightarrow> Coloring \<times> rng \<Rightarrow> Coloring \<times> rng" where
  "assignRandom K unassigned =
     fold (\<lambda>nid (child, g). case randomColor K g of (c, g') \<Rightarrow> (setColor nid c child, g'))
       unassigned"

definition gpxCrossover ::
  "Coloring \<Rightarrow> Coloring \<Rightarrow> int \<Rightarrow> GraphData \<Rightarrow> rng \<Rightarrow> Coloring \<times> rng" where
  "gpxCrossover p1 p2 K graph g =
     (let classes1 = getClasses p1 K;
          classes2 = getClasses p2 K;
          child0 = fold (\<lambda>n child. setColor n 0 child) (nodes graph) [];
          unassigned0 = newSet (nodes graph)
      in case fold (gpxSlot classes1 classes2) [1..K] (child0, unassigned0, 1) of
           (child, unassigned, currentParent) \<Rightarrow> assignRandom K unassigned (child, g))"

section \<open>Population manager: \<^verbatim>\<open>runHEAStep\<close> and \<^verbatim>\<open>initPopulation\<close>\<close>

text \<open>The two messages a step pushes to its log.\<close>

datatype LogEntry =
  Replaced rat int rat
| Discarded rat

record HEAStepResult =
  newPopulation :: "Individual list"
  best :: Coloring
  bestConflicts :: rat
  logs :: "LogEntry list"

text \<open>
  The local function \<^verbatim>\<open>tournament\<close>. \<open>bestIdx\<close> starts at -1 (\<open>None\<close>) and \<open>bestFit\<close> at
  \<^verbatim>\<open>Infinity\<close> (\<open>None\<close>). Reading \<^verbatim>\<open>.conflicts\<close> of \<^verbatim>\<open>population[idx]\<close> raises a
  \<^verbatim>\<open>TypeError\<close> when the index is not one of the array, which happens for the empty
  population; so does reading \<^verbatim>\<open>.coloring\<close> of the result when no index was chosen.
\<close>

fun tournamentLoop ::
  "Individual list \<Rightarrow> nat \<Rightarrow> nat option \<times> rat option \<Rightarrow> rng
   \<Rightarrow> error + ((nat option \<times> rat option) \<times> rng)" where
  "tournamentLoop population 0 acc g = Inr (acc, g)"
| "tournamentLoop population (Suc n) (bestIdx, bestFit) g =
     (case randomBelow (int (length population)) g of (i, g') \<Rightarrow>
        if nat i < length population then
          (if (case bestFit of None \<Rightarrow> True | Some f \<Rightarrow> conflicts (population ! nat i) < f)
           then tournamentLoop population n
                  (Some (nat i), Some (conflicts (population ! nat i))) g'
           else tournamentLoop population n (bestIdx, bestFit) g')
        else Inl TypeError)"

definition tournament :: "Individual list \<Rightarrow> nat \<Rightarrow> rng \<Rightarrow> error + (Individual \<times> rng)" where
  "tournament population tsize g =
     (case tournamentLoop population tsize (None, None) g of
        Inl e \<Rightarrow> Inl e
      | Inr ((None, bestFit), g') \<Rightarrow> Inl TypeError
      | Inr ((Some bestIdx, bestFit), g') \<Rightarrow> Inr (population ! bestIdx, g'))"

text \<open>The search for the worst individual, from \<open>worstIdx = -1\<close> and \<open>worstConf = -1\<close>.\<close>

definition findWorst :: "Individual list \<Rightarrow> int \<times> rat" where
  "findWorst population =
     fold (\<lambda>(idx, ind) (worstIdx, worstConf).
             if conflicts ind > worstConf then (int idx, conflicts ind)
             else (worstIdx, worstConf))
       (zip [0 ..< length population] population) (- 1, - 1)"

text \<open>
  \<^verbatim>\<open>newPopulation[worstIdx] = ...\<close> on the copy of the array. With \<open>worstIdx = -1\<close> the
  assignment creates a property named \<^verbatim>\<open>-1\<close> and leaves every element and the length as they
  are.
\<close>

definition replaceAt :: "Individual list \<Rightarrow> int \<Rightarrow> Individual \<Rightarrow> Individual list" where
  "replaceAt population idx ind =
     (if 0 \<le> idx \<and> nat idx < length population then population[nat idx := ind]
      else population)"

text \<open>The search for the best individual, from the first one.\<close>

definition findBest :: "Individual list \<Rightarrow> Coloring \<times> rat" where
  "findBest population =
     fold (\<lambda>ind (best, bestConflicts).
             if conflicts ind < bestConflicts then (coloring ind, conflicts ind)
             else (best, bestConflicts))
       population (coloring (population ! 0), conflicts (population ! 0))"

text \<open>Selection of two parents, crossover and local search: the child of one step.\<close>

definition breedChild ::
  "Individual list \<Rightarrow> GraphData \<Rightarrow> AlgorithmParams \<Rightarrow> rng \<Rightarrow> error + (Individual \<times> rng)" where
  "breedChild population graph params g =
     (case tournament population 3 g of
        Inl e \<Rightarrow> Inl e
      | Inr (p1, g1) \<Rightarrow>
     (case tournament population 3 g1 of
        Inl e \<Rightarrow> Inl e
      | Inr (p2, g2) \<Rightarrow>
     (case gpxCrossover (coloring p1) (coloring p2) (k params) graph g2 of (childInit, g3) \<Rightarrow>
        Inr (runTabuCol graph (k params) childInit (maxIterTabu params) (tabuTenure params) g3))))"

text \<open>The replacement rule and the report of the best individual.\<close>

definition replaceWorst :: "Individual list \<Rightarrow> Individual \<Rightarrow> HEAStepResult" where
  "replaceWorst population child =
     (let (worstIdx, worstConf) = findWorst population;
          isDuplicate = list_ex (\<lambda>ind. conflicts ind = conflicts child) population;
          (newPop, log) =
            (if conflicts child < worstConf \<and> \<not> isDuplicate
             then (replaceAt population worstIdx child,
                   [Replaced (conflicts child) worstIdx worstConf])
             else (population, [Discarded (conflicts child)]));
          (bestC, bestConf) = findBest newPop
      in \<lparr>newPopulation = newPop, best = bestC, bestConflicts = bestConf, logs = log\<rparr>)"

definition runHEAStep ::
  "Individual list \<Rightarrow> GraphData \<Rightarrow> AlgorithmParams \<Rightarrow> rng \<Rightarrow> error + (HEAStepResult \<times> rng)" where
  "runHEAStep population graph params g =
     (case breedChild population graph params g of
        Inl e \<Rightarrow> Inl e
      | Inr (child, g') \<Rightarrow> Inr (replaceWorst population child, g'))"

subsection \<open>Random draws stay in range\<close>

lemma Rep_prob_range: "0 \<le> Rep_prob p" "Rep_prob p < 1"
  using Rep_prob [of p] by simp_all

lemma randomBelow_range:
  assumes "randomBelow n g = (i, g')" "0 < n"
  shows "0 \<le> i" "i < n"
proof -
  let ?r = "Rep_prob (shd g)"
  from assms(1) have i: "i = \<lfloor>?r * of_int n\<rfloor>"
    by (simp add: randomBelow_def mathRandom_def)
  have "0 \<le> ?r * of_int n" using Rep_prob_range(1) assms(2) by simp
  then show "0 \<le> i" by (simp add: i)
  have "?r * of_int n < 1 * of_int n"
    using Rep_prob_range(2) [of "shd g"] assms(2) by (intro mult_strict_right_mono) simp_all
  then show "i < n" by (simp add: i floor_less_iff)
qed


subsection \<open>Selection never fails on a non-empty population\<close>

lemma tournamentLoop_Some:
  "tournamentLoop population n (Some j, bf) g = Inr ((bi', bf'), g') \<Longrightarrow> bi' \<noteq> None"
  by (induction n arbitrary: j bf g) (auto split: prod.splits if_splits)

lemma tournamentLoop_ok:
  assumes "population \<noteq> []"
      and "bi = None \<longleftrightarrow> bf = None"
      and "\<forall>i. bi = Some i \<longrightarrow> i < length population"
  shows "\<exists>bi' bf' g'. tournamentLoop population n (bi, bf) g = Inr ((bi', bf'), g')
          \<and> (\<forall>i. bi' = Some i \<longrightarrow> i < length population)
          \<and> (bi' = None \<longrightarrow> n = 0)"
  using assms(2,3)
proof (induction n arbitrary: bi bf g)
  case 0
  then show ?case by simp
next
  case (Suc n)
  obtain i g1 where r: "randomBelow (int (length population)) g = (i, g1)"
    by (cases "randomBelow (int (length population)) g")
  from assms(1) have "0 < int (length population)" by simp
  from randomBelow_range [OF r this] have i: "nat i < length population" by simp
  show ?case
  proof (cases "case bf of None \<Rightarrow> True | Some f \<Rightarrow> conflicts (population ! nat i) < f")
    case True
    have "\<exists>bi' bf' g'. tournamentLoop population n
             (Some (nat i), Some (conflicts (population ! nat i))) g1 = Inr ((bi', bf'), g')
          \<and> (\<forall>i. bi' = Some i \<longrightarrow> i < length population) \<and> (bi' = None \<longrightarrow> n = 0)"
      by (rule Suc.IH) (simp_all add: i)
    then show ?thesis using True i r tournamentLoop_Some by auto
  next
    case False
    then obtain f where f: "bf = Some f" by (cases bf) auto
    with Suc.prems obtain j where j: "bi = Some j" by auto
    have "\<exists>bi' bf' g'. tournamentLoop population n (bi, bf) g1 = Inr ((bi', bf'), g')
          \<and> (\<forall>i. bi' = Some i \<longrightarrow> i < length population) \<and> (bi' = None \<longrightarrow> n = 0)"
      by (rule Suc.IH) (use Suc.prems in simp_all)
    then show ?thesis using False i r j tournamentLoop_Some by auto
  qed
qed

lemma tournament_ok:
  assumes "population \<noteq> []"
  shows "\<exists>p g'. tournament population 3 g = Inr (p, g') \<and> p \<in> set population"
proof -
  from tournamentLoop_ok [OF assms, of None None 3 g]
  obtain bi' bf' g' where t: "tournamentLoop population 3 (None, None) g = Inr ((bi', bf'), g')"
    and v: "\<forall>i. bi' = Some i \<longrightarrow> i < length population" and n: "bi' = None \<longrightarrow> (3::nat) = 0"
    by auto
  from n obtain i where "bi' = Some i" by (cases bi') auto
  with t v show ?thesis by (simp add: tournament_def)
qed

lemma breedChild_ok:
  assumes "population \<noteq> []"
  shows "\<exists>child g'. breedChild population graph params g = Inr (child, g')"
proof -
  obtain p1 g1 where 1: "tournament population 3 g = Inr (p1, g1)"
    using tournament_ok [OF assms] by blast
  obtain p2 g2 where 2: "tournament population 3 g1 = Inr (p2, g2)"
    using tournament_ok [OF assms] by blast
  show ?thesis
    by (simp add: breedChild_def 1 2 split: prod.splits)
qed


subsection \<open>Worst and best individual\<close>

lemma findWorst_fold:
  fixes xs :: "Individual list"
  assumes "fold (\<lambda>(idx, ind) (worstIdx, worstConf).
             if conflicts ind > worstConf then (int idx, conflicts ind)
             else (worstIdx, worstConf)) (zip [n ..< n + length xs] xs) (wi, wc) = (wi', wc')"
  shows "(\<forall>ind \<in> set xs. conflicts ind \<le> wc') \<and> wc \<le> wc'
     \<and> ((wi', wc') = (wi, wc)
        \<or> (\<exists>j < length xs. wi' = int (n + j) \<and> conflicts (xs ! j) = wc' \<and> wc < wc'))"
  using assms
proof (induction xs arbitrary: n wi wc)
  case Nil
  then show ?case by simp
next
  case (Cons x xs)
  let ?f = "\<lambda>(idx, ind) (worstIdx, worstConf).
             if conflicts ind > worstConf then (int idx, conflicts ind)
             else (worstIdx, worstConf)"
  have z: "zip [n ..< n + length (x # xs)] (x # xs) = (n, x) # zip [Suc n ..< Suc n + length xs] xs"
    by (subst upt_conv_Cons) simp_all
  show ?case
  proof (cases "conflicts x > wc")
    case True
    with Cons.prems have "fold ?f (zip [Suc n ..< Suc n + length xs] xs) (int n, conflicts x) = (wi', wc')"
      by (simp only: z fold_Cons comp_def) simp
    from Cons.IH [OF this] True show ?thesis
      by (auto simp: nth_Cons split: nat.splits) 
  next
    case False
    with Cons.prems have "fold ?f (zip [Suc n ..< Suc n + length xs] xs) (wi, wc) = (wi', wc')"
      by (simp only: z fold_Cons comp_def) simp
    from Cons.IH [OF this] False show ?thesis
      by (auto simp: nth_Cons split: nat.splits)
  qed
qed

lemma findWorst_spec:
  assumes "findWorst population = (wi, wc)"
  shows "(\<forall>ind \<in> set population. conflicts ind \<le> wc) \<and> - 1 \<le> wc
     \<and> (wi = - 1 \<and> wc = - 1
        \<or> (0 \<le> wi \<and> nat wi < length population \<and> conflicts (population ! nat wi) = wc \<and> - 1 < wc))"
  using findWorst_fold [of 0 population "- 1" "- 1" wi wc] assms
  by (auto simp: findWorst_def)

lemma findBest_fold:
  "(let r = snd (fold (\<lambda>ind (best, bestConflicts).
             if conflicts ind < bestConflicts then (coloring ind, conflicts ind)
             else (best, bestConflicts)) xs (b, m))
    in (r = m \<or> r \<in> conflicts ` set xs) \<and> r \<le> m \<and> (\<forall>ind \<in> set xs. r \<le> conflicts ind))"
proof (induction xs arbitrary: b m)
  case Nil
  show ?case by simp
next
  case (Cons x xs)
  show ?case
    using Cons.IH [of "coloring x" "conflicts x"] Cons.IH [of b m]
    by (auto simp: Let_def)
qed

lemma findBest_least:
  assumes "population \<noteq> []"
  shows "snd (findBest population) \<in> conflicts ` set population"
    and "\<forall>ind \<in> set population. snd (findBest population) \<le> conflicts ind"
proof -
  from assms have "population ! 0 \<in> set population" by simp
  then show "snd (findBest population) \<in> conflicts ` set population"
    and "\<forall>ind \<in> set population. snd (findBest population) \<le> conflicts ind"
    using findBest_fold [of population "coloring (population ! 0)" "conflicts (population ! 0)"]
    by (auto simp: findBest_def Let_def)
qed

lemma replaceWorst_newPopulation:
  "newPopulation (replaceWorst population child) =
     (if conflicts child < snd (findWorst population)
         \<and> \<not> (\<exists>ind \<in> set population. conflicts ind = conflicts child)
      then replaceAt population (fst (findWorst population)) child else population)"
  by (simp add: replaceWorst_def Let_def list_ex_iff split: prod.splits)

lemma replaceWorst_bestConflicts:
  "bestConflicts (replaceWorst population child)
     = snd (findBest (newPopulation (replaceWorst population child)))"
  by (simp add: replaceWorst_def Let_def split: prod.splits)

lemma length_replaceWorst:
  "length (newPopulation (replaceWorst population child)) = length population"
  by (simp add: replaceWorst_newPopulation replaceAt_def)

lemma replaceWorst_dominated:
  assumes "ind \<in> set population"
  shows "\<exists>ind' \<in> set (newPopulation (replaceWorst population child)). conflicts ind' \<le> conflicts ind"
proof (cases "newPopulation (replaceWorst population child) = population")
  case True
  with assms show ?thesis by auto
next
  case False
  obtain wi wc where w: "findWorst population = (wi, wc)" by (cases "findWorst population")
  from False have lt: "conflicts child < wc"
    and new: "newPopulation (replaceWorst population child) = replaceAt population wi child"
    by (auto simp: replaceWorst_newPopulation w split: if_splits)
  from False new have wi: "0 \<le> wi" "nat wi < length population"
    and new': "newPopulation (replaceWorst population child) = population[nat wi := child]"
    by (auto simp: replaceAt_def split: if_splits)
  from findWorst_spec [OF w] wi have wc: "conflicts (population ! nat wi) = wc" by auto
  from assms obtain j where j: "j < length population" "population ! j = ind"
    by (auto simp: in_set_conv_nth)
  show ?thesis
  proof (cases "j = nat wi")
    case True
    have "child \<in> set (population[nat wi := child])"
      using wi(2) by (simp add: set_update_memI)
    moreover have "conflicts child \<le> conflicts ind"
      using lt wc j True by simp
    ultimately show ?thesis unfolding new' by blast
  next
    case False
    then have "population[nat wi := child] ! j = ind" using j by simp
    then have "ind \<in> set (population[nat wi := child])"
      using j(1) by (metis length_list_update nth_mem)
    then show ?thesis unfolding new' by blast
  qed
qed

lemma replaceWorst_best_le:
  assumes "population \<noteq> []" "ind \<in> set population"
  shows "bestConflicts (replaceWorst population child) \<le> conflicts ind"
proof -
  let ?new = "newPopulation (replaceWorst population child)"
  from assms(1) have ne: "?new \<noteq> []"
    using length_replaceWorst [of population child] by auto
  from replaceWorst_dominated [OF assms(2), of child]
  obtain ind' where "ind' \<in> set ?new" "conflicts ind' \<le> conflicts ind" by blast
  with findBest_least(2) [OF ne] show ?thesis
    by (auto simp: replaceWorst_bestConflicts)
qed

subsection \<open>Monotonicity of the reported best\<close>

text \<open>
  C1. For a non-empty population, a step returns normally, every step on the returned
  population returns normally whatever the random source yields, and the best conflict count
  it reports is at most the one reported by the step before. No assumption on the graph,
  on the parameters or on the stored conflict counts is needed.
\<close>

theorem runHEAStep_best_monotone:
  assumes "population \<noteq> []"
  shows "\<exists>r1 g1. runHEAStep population graph params g = Inr (r1, g1)
          \<and> (\<forall>g'. \<exists>r2 g2. runHEAStep (newPopulation r1) graph params g' = Inr (r2, g2)
                    \<and> bestConflicts r2 \<le> bestConflicts r1)"
proof -
  obtain child g1 where c: "breedChild population graph params g = Inr (child, g1)"
    using breedChild_ok [OF assms] by blast
  let ?r1 = "replaceWorst population child"
  have r1: "runHEAStep population graph params g = Inr (?r1, g1)"
    by (simp add: runHEAStep_def c)
  from assms have ne: "newPopulation ?r1 \<noteq> []"
    using length_replaceWorst [of population child] by auto
  have "\<exists>r2 g2. runHEAStep (newPopulation ?r1) graph params g' = Inr (r2, g2)
                    \<and> bestConflicts r2 \<le> bestConflicts ?r1" for g'
  proof -
    obtain child' g2 where c': "breedChild (newPopulation ?r1) graph params g' = Inr (child', g2)"
      using breedChild_ok [OF ne] by blast
    have "bestConflicts ?r1 \<in> conflicts ` set (newPopulation ?r1)"
      using findBest_least(1) [OF ne] by (simp add: replaceWorst_bestConflicts)
    then obtain ind where "ind \<in> set (newPopulation ?r1)" "conflicts ind = bestConflicts ?r1"
      by auto
    with replaceWorst_best_le [OF ne, of ind child']
    have "bestConflicts (replaceWorst (newPopulation ?r1) child') \<le> bestConflicts ?r1" by simp
    then show ?thesis by (simp add: runHEAStep_def c')
  qed
  with r1 show ?thesis by blast
qed


subsection \<open>The replacement rule\<close>



theorem runHEAStep_best_monotone_witness:
  "\<exists>r1 g1. runHEAStep [\<lparr>coloring = [(1, 1)], conflicts = 0\<rparr>]
              \<lparr>nodes = [1], adjacency = [(1, [])]\<rparr>
              \<lparr>k = 1, popSize = 1, maxIterHEA = 1, alpha = 2, tabuTenure = 1, maxIterTabu = 1\<rparr>
              (sconst probZero) = Inr (r1, g1)
          \<and> (\<forall>g'. \<exists>r2 g2. runHEAStep (newPopulation r1)
              \<lparr>nodes = [1], adjacency = [(1, [])]\<rparr>
              \<lparr>k = 1, popSize = 1, maxIterHEA = 1, alpha = 2, tabuTenure = 1, maxIterTabu = 1\<rparr>
               g' = Inr (r2, g2)
                    \<and> bestConflicts r2 \<le> bestConflicts r1)"
  by (rule runHEAStep_best_monotone) simp


section \<open>Incremental conflict bookkeeping\<close>

lemma getColor_setColor:
  "getColor (setColor v c col) w = (if w = v then Some c else getColor col w)"
  by (induction col) (auto simp: getColor_def)














section \<open>Eligibility of candidate moves\<close>

text \<open>
  The two tests of the source on a candidate move, \<^verbatim>\<open>isTabu\<close> and \<^verbatim>\<open>isAspiration\<close>, as
  predicates of their own, the list of candidate moves of an iteration (every conflicted
  vertex with every color of \<open>1..k\<close> other than its own), and what it means for the chosen
  move to be a best eligible one.
\<close>

definition isTabu :: "TabuState \<Rightarrow> int \<Rightarrow> nat \<Rightarrow> int \<Rightarrow> bool" where
  "isTabu st iter u color = (iter \<le> tabuMatrix st u (Some color))"

definition isAspiration :: "GraphData \<Rightarrow> TabuState \<Rightarrow> nat \<Rightarrow> int \<Rightarrow> bool" where
  "isAspiration graph st u color =
     (currentConflicts st + of_int (delta (candidate graph st u color)) < bestSConflicts st)"

definition eligible :: "GraphData \<Rightarrow> TabuState \<Rightarrow> int \<Rightarrow> nat \<Rightarrow> int \<Rightarrow> bool" where
  "eligible graph st iter u color = (\<not> isTabu st iter u color \<or> isAspiration graph st u color)"

definition candidateMoves :: "int \<Rightarrow> TabuState \<Rightarrow> nat list \<Rightarrow> (nat \<times> int) list" where
  "candidateMoves K st conflicted =
     filter (\<lambda>(u, color). Some color \<noteq> getColor (currentS st) u)
       (concat (map (\<lambda>u. map (Pair u) [1..K]) conflicted))"

definition bestAmong :: "GraphData \<Rightarrow> TabuState \<Rightarrow> int \<Rightarrow> (nat \<times> int) list \<Rightarrow> Move option \<Rightarrow> bool" where
  "bestAmong graph st iter moves bestMove =
     (case bestMove of
        None \<Rightarrow> \<forall>(u, color) \<in> set moves. \<not> eligible graph st iter u color
      | Some m \<Rightarrow>
          (\<exists>(u, color) \<in> set moves. m = candidate graph st u color \<and> eligible graph st iter u color)
          \<and> (\<forall>(u, color) \<in> set moves. eligible graph st iter u color
                \<longrightarrow> delta m \<le> delta (candidate graph st u color)))"

lemma fold_nested:
  "fold (\<lambda>u. fold (f u) ys) xs = fold (\<lambda>(u, c). f u c) (concat (map (\<lambda>u. map (Pair u) ys) xs))"
proof (induction xs)
  case Nil
  show ?case by simp
next
  case (Cons x xs)
  have "fold (f x) ys = fold (\<lambda>(u, c). f u c) (map (Pair x) ys)"
    by (simp add: fold_map comp_def)
  with Cons show ?case by simp
qed

lemma findBestMove_flat:
  "findBestMove graph K st iter conflicted g =
     fold (\<lambda>(u, color). considerColor graph st iter u color)
       (concat (map (\<lambda>u. map (Pair u) [1..K]) conflicted)) (None, g)"
  unfolding findBestMove_def exploreNode_def fold_nested ..

lemma considerColor_step:
  assumes "bestAmong graph st iter (filter (\<lambda>(u, color). Some color \<noteq> getColor (currentS st) u) done) bm"
  shows "bestAmong graph st iter
           (filter (\<lambda>(u, color). Some color \<noteq> getColor (currentS st) u) (done @ [(u, color)]))
           (fst (considerColor graph st iter u color (bm, g)))"
proof (cases "Some color = getColor (currentS st) u")
  case True
  with assms show ?thesis by (simp add: considerColor_def)
next
  case False
  let ?m = "candidate graph st u color"
  have el: "eligible graph st iter u color
        \<longleftrightarrow> (\<not> iter \<le> tabuMatrix st u (Some color)
             \<or> currentConflicts st + of_int (delta ?m) < bestSConflicts st)"
    by (simp add: eligible_def isTabu_def isAspiration_def)
  show ?thesis
  proof (cases "eligible graph st iter u color")
    case ne: False
    with False assms el show ?thesis
      by (auto simp: considerColor_def Let_def bestAmong_def split: option.splits)
  next
    case e: True
    show ?thesis
    proof (cases bm)
      case None
      with False assms el e show ?thesis
        by (auto simp: considerColor_def Let_def bestAmong_def)
    next
      case (Some b)
      let ?F = "filter (\<lambda>(u, color). Some color \<noteq> getColor (currentS st) u) done"
      let ?r = "fst (considerColor graph st iter u color (bm, g))"
      from assms Some
      have ex: "\<exists>(u', c') \<in> set ?F. b = candidate graph st u' c' \<and> eligible graph st iter u' c'"
        and mn: "\<forall>(u', c') \<in> set ?F. eligible graph st iter u' c'
                   \<longrightarrow> delta b \<le> delta (candidate graph st u' c')"
        by (simp_all add: bestAmong_def)
      have F: "filter (\<lambda>(u, color). Some color \<noteq> getColor (currentS st) u) (done @ [(u, color)])
             = ?F @ [(u, color)]"
        using False by simp
      from e have "\<not> iter \<le> tabuMatrix st u (Some color)
             \<or> currentConflicts st + of_int (delta ?m) < bestSConflicts st"
        by (simp add: el)
      with False Some
      have "?r = Some ?m \<and> delta ?m \<le> delta b \<or> ?r = Some b \<and> delta b \<le> delta ?m"
        by (simp add: considerColor_def Let_def split: prod.splits)
      then consider (new) "?r = Some ?m" "delta ?m \<le> delta b" | (old) "?r = Some b" "delta b \<le> delta ?m"
        by blast
      then show ?thesis
      proof cases
        case new
        have "\<forall>(u', c') \<in> set ?F. eligible graph st iter u' c'
                   \<longrightarrow> delta ?m \<le> delta (candidate graph st u' c')"
          using mn new(2) by fastforce
        with new(1) e show ?thesis
          unfolding F by (simp add: bestAmong_def)
      next
        case old
        with ex mn e show ?thesis
          unfolding F by (auto simp: bestAmong_def)
      qed
    qed
  qed
qed

lemma fold_considerColor:
  assumes "bestAmong graph st iter (filter (\<lambda>(u, color). Some color \<noteq> getColor (currentS st) u) done) bm"
  shows "bestAmong graph st iter
           (filter (\<lambda>(u, color). Some color \<noteq> getColor (currentS st) u) (done @ todo))
           (fst (fold (\<lambda>(u, color). considerColor graph st iter u color) todo (bm, g)))"
  using assms
proof (induction todo arbitrary: "done" bm g)
  case Nil
  then show ?case by simp
next
  case (Cons x todo)
  obtain u color where x: "x = (u, color)" by (cases x)
  obtain bm' g' where s: "considerColor graph st iter u color (bm, g) = (bm', g')"
    by (cases "considerColor graph st iter u color (bm, g)")
  from considerColor_step [OF Cons.prems, of u color g] s
  have "bestAmong graph st iter
          (filter (\<lambda>(u, color). Some color \<noteq> getColor (currentS st) u) (done @ [(u, color)])) bm'"
    by simp
  from Cons.IH [OF this, of g'] show ?case by (simp add: x s)
qed

lemma findBestMove_bestAmong:
  "bestAmong graph st iter (candidateMoves K st conflicted)
     (fst (findBestMove graph K st iter conflicted g))"
  using fold_considerColor [of graph st iter "[]" None _ g]
  by (simp add: findBestMove_flat candidateMoves_def bestAmong_def)

section \<open>The running conflict total\<close>

text \<open>
  \<open>tabuRun graph K tenure n sg\<close> is the state after \<open>n\<close> passes through the body of the main
  loop, started in \<open>sg\<close> at iteration 1; it is \<open>None\<close> once the loop has left through a
  \<^verbatim>\<open>break\<close>. The loop of the source ends in one of these states (\<open>tabuLoop_is_run\<close>).
\<close>

fun tabuRun ::
  "GraphData \<Rightarrow> int \<Rightarrow> int \<Rightarrow> nat \<Rightarrow> TabuState \<times> rng \<Rightarrow> (TabuState \<times> rng) option" where
  "tabuRun graph K tenure 0 sg = Some sg"
| "tabuRun graph K tenure (Suc n) sg =
     (case tabuRun graph K tenure n sg of
        None \<Rightarrow> None
      | Some sg' \<Rightarrow> tabuIteration graph K tenure (int n + 1) sg')"
















lemma runTabuCol_unfold:
  "runTabuCol graph K seed maxIter tenure g =
     (let sg = tabuLoop graph K maxIter tenure 1
                 (initialState graph (fst (ensureColors K seed g)), snd (ensureColors K seed g))
      in (\<lparr>coloring = bestS (fst sg), conflicts = bestSConflicts (fst sg)\<rparr>, snd sg))"
  by (simp add: runTabuCol_def Let_def split: prod.splits)


section \<open>Greedy colorer: \<^verbatim>\<open>runDSATUR\<close>\<close>

text \<open>
  \<open>degreeOf\<close> is the table \<^verbatim>\<open>degrees\<close>, which never changes; \<open>saturation\<close> is a table that
  starts at 0 and is refreshed for the uncolored vertices at the start of every round.
  \<^verbatim>\<open>Array.prototype.reduce\<close> without an initial value raises a \<^verbatim>\<open>TypeError\<close> on an empty
  array, \<^verbatim>\<open>new Array(k + 1)\<close> a \<^verbatim>\<open>RangeError\<close> for a negative length.
  \<^verbatim>\<open>Array.prototype.sort\<close> is stable, as \<open>sort_key\<close> is; the comparator of the source orders by
  saturation, then degree, both descending.
\<close>

definition degreeOf :: "Adjacency \<Rightarrow> nat \<Rightarrow> nat" where
  "degreeOf adj n = length (neighborsOf adj n)"

text \<open>The colors other than 0 read at the neighbors of a vertex (the members of \<^verbatim>\<open>usedColors\<close>).\<close>

definition neighborColors :: "Adjacency \<Rightarrow> Coloring \<Rightarrow> nat \<Rightarrow> int option list" where
  "neighborColors adj col nodeId =
     filter (\<lambda>c. c \<noteq> Some 0) (map (getColor col) (neighborsOf adj nodeId))"

definition getSaturation :: "Adjacency \<Rightarrow> Coloring \<Rightarrow> nat \<Rightarrow> nat" where
  "getSaturation adj col nodeId = length (remdups (neighborColors adj col nodeId))"

definition uncoloredCount :: "nat list \<Rightarrow> Coloring \<Rightarrow> nat" where
  "uncoloredCount ns col = length (filter (\<lambda>n. getColor col n = Some 0) ns)"

definition maxDegreeNode :: "Adjacency \<Rightarrow> nat list \<Rightarrow> error + nat" where
  "maxDegreeNode adj ns =
     (case ns of
        [] \<Rightarrow> Inl TypeError
      | n # rest \<Rightarrow> Inr (fold (\<lambda>b a. if degreeOf adj a > degreeOf adj b then a else b) rest n))"

definition updateSaturation ::
  "Adjacency \<Rightarrow> nat list \<Rightarrow> Coloring \<Rightarrow> (nat \<Rightarrow> nat) \<Rightarrow> (nat \<Rightarrow> nat)" where
  "updateSaturation adj ns col =
     fold (\<lambda>n saturation.
             if getColor col n = Some 0 then saturation (n := getSaturation adj col n)
             else saturation) ns"

lemma length_filter_mono:
  "(\<And>y. P y \<Longrightarrow> Q y) \<Longrightarrow> length (filter P xs) \<le> length (filter Q xs)"
  by (induction xs) auto

lemma length_filter_strict:
  assumes "x \<in> set xs" "Q x" "\<not> P x" "\<And>y. P y \<Longrightarrow> Q y"
  shows "length (filter P xs) < length (filter Q xs)"
  using assms(1)
proof (induction xs)
  case Nil
  then show ?case by simp
next
  case (Cons a xs)
  show ?case
  proof (cases "a = x")
    case True
    with assms(2,3) length_filter_mono [of P Q xs, OF assms(4)] show ?thesis by simp
  next
    case False
    with Cons have "length (filter P xs) < length (filter Q xs)" by simp
    with assms(4) [of a] show ?thesis by auto
  qed
qed

text \<open>The loop \<^verbatim>\<open>while (usedColors.has(chosenColor)) chosenColor++\<close>.\<close>

function firstUnused :: "int option list \<Rightarrow> int \<Rightarrow> int" where
  "firstUnused usedColors chosenColor =
     (if Some chosenColor \<in> set usedColors then firstUnused usedColors (chosenColor + 1)
      else chosenColor)"
  by pat_completeness auto
termination
proof (relation "measure (\<lambda>(usedColors, chosenColor).
          length (filter (\<lambda>x. case x of None \<Rightarrow> False | Some y \<Rightarrow> chosenColor \<le> y) usedColors))")
  show "wf (measure (\<lambda>(usedColors, chosenColor).
          length (filter (\<lambda>x. case x of None \<Rightarrow> False | Some y \<Rightarrow> chosenColor \<le> y) usedColors)))"
    by simp
next
  fix usedColors :: "int option list" and chosenColor :: int
  assume m: "Some chosenColor \<in> set usedColors"
  let ?P = "\<lambda>c x. case x of None \<Rightarrow> False | Some y \<Rightarrow> c \<le> (y::int)"
  have "length (filter (?P (chosenColor + 1)) usedColors)
      < length (filter (?P chosenColor) usedColors)"
    by (rule length_filter_strict [OF m]) (auto split: option.splits)
  then show "((usedColors, chosenColor + 1), (usedColors, chosenColor))
      \<in> measure (\<lambda>(usedColors, chosenColor). length (filter (?P chosenColor) usedColors))"
    by simp
qed

declare firstUnused.simps [simp del]

text \<open>The color of \<open>1..k\<close> used by the fewest neighbors, from \<open>minConf = Infinity\<close> (\<open>None\<close>) and \<open>bestC = 1\<close>.\<close>

definition leastUsedColor :: "Adjacency \<Rightarrow> Coloring \<Rightarrow> nat \<Rightarrow> int \<Rightarrow> int" where
  "leastUsedColor adj col chosen K =
     snd (fold (\<lambda>c (minConf, bestC).
                  let count = length (filter (\<lambda>neighbor. getColor col neighbor = Some c)
                                        (neighborsOf adj chosen))
                  in if (case minConf of None \<Rightarrow> True | Some m \<Rightarrow> count < m)
                     then (Some count, c) else (minConf, bestC))
            [1..K] (None, 1))"

text \<open>One round of the main loop.\<close>

definition dsaturStep ::
  "GraphData \<Rightarrow> int \<Rightarrow> (nat \<Rightarrow> nat) \<times> Coloring \<Rightarrow> error + ((nat \<Rightarrow> nat) \<times> Coloring)" where
  "dsaturStep graph K = (\<lambda>(saturation, col).
     (let saturation' = updateSaturation (adjacency graph) (nodes graph) col saturation;
          uncolored = filter (\<lambda>n. getColor col n = Some 0) (nodes graph);
          sorted = sort_key (\<lambda>n. (- int (saturation' n), - int (degreeOf (adjacency graph) n)))
                     uncolored
      in case sorted of
           [] \<Rightarrow> Inl TypeError
         | chosen # rest \<Rightarrow>
             let chosenColor = firstUnused (neighborColors (adjacency graph) col chosen) 1
             in if chosenColor > K then
                  (if K + 1 < 0 then Inl RangeError
                   else Inr (saturation',
                             setColor chosen (leastUsedColor (adjacency graph) col chosen K) col))
                else Inr (saturation', setColor chosen chosenColor col)))"

lemma firstUnused_ge: "c \<le> firstUnused used c"
proof (induction used c rule: firstUnused.induct)
  case (1 usedColors chosenColor)
  then show ?case by (subst firstUnused.simps) auto
qed

lemma leastUsedColor_range: "1 \<le> leastUsedColor adj col chosen K \<and> (1 \<le> K \<longrightarrow> leastUsedColor adj col chosen K \<le> K)"
proof -
  let ?f = "\<lambda>c (minConf, bestC).
                  let count = length (filter (\<lambda>neighbor. getColor col neighbor = Some c)
                                        (neighborsOf adj chosen))
                  in if (case minConf of None \<Rightarrow> True | Some m \<Rightarrow> count < m)
                     then (Some count, c) else (minConf, bestC)"
  have "snd (fold ?f cs (m, b)) = b \<or> snd (fold ?f cs (m, b)) \<in> set cs" for cs m b
  proof (induction cs arbitrary: m b)
    case Nil
    show ?case by simp
  next
    case (Cons c cs)
    show ?case
      using Cons [of m b] Cons [of "Some (length (filter (\<lambda>neighbor. getColor col neighbor = Some c)
                                        (neighborsOf adj chosen)))" c]
      by (auto simp: Let_def)
  qed
  from this [of "[1..K]" None 1] show ?thesis
    by (auto simp: leastUsedColor_def)
qed

lemma dsaturStep_colors:
  assumes "dsaturStep graph K (sat, col) = Inr (sat', col')"
  shows "\<exists>chosen c. chosen \<in> set (nodes graph) \<and> getColor col chosen = Some 0 \<and> 1 \<le> c
           \<and> (1 \<le> K \<longrightarrow> c \<le> K) \<and> col' = setColor chosen c col"
proof -
  let ?sat = "updateSaturation (adjacency graph) (nodes graph) col sat"
  let ?unc = "filter (\<lambda>n. getColor col n = Some 0) (nodes graph)"
  let ?sorted = "sort_key (\<lambda>n. (- int (?sat n), - int (degreeOf (adjacency graph) n))) ?unc"
  from assms obtain chosen rest where s: "?sorted = chosen # rest"
    by (cases ?sorted) (auto simp: dsaturStep_def Let_def)
  then have "chosen \<in> set ?sorted" by simp
  then have ch: "chosen \<in> set (nodes graph)" "getColor col chosen = Some 0" by auto
  let ?c = "firstUnused (neighborColors (adjacency graph) col chosen) 1"
  have c1: "1 \<le> ?c" by (rule firstUnused_ge)
  from assms s have "col' = setColor chosen (leastUsedColor (adjacency graph) col chosen K) col \<and> ?c > K
      \<or> col' = setColor chosen ?c col \<and> ?c \<le> K"
    by (auto simp: dsaturStep_def Let_def split: if_splits)
  with ch c1 leastUsedColor_range [of "adjacency graph" col chosen K] show ?thesis
    by blast
qed

lemma dsaturStep_decreases:
  assumes "dsaturStep graph K (sat, col) = Inr (sat', col')"
  shows "uncoloredCount (nodes graph) col' < uncoloredCount (nodes graph) col"
proof -
  from dsaturStep_colors [OF assms] obtain chosen c
    where ch: "chosen \<in> set (nodes graph)" "getColor col chosen = Some 0" and c: "1 \<le> c"
      and col': "col' = setColor chosen c col" by blast
  have "length (filter (\<lambda>n. getColor col' n = Some 0) (nodes graph))
      < length (filter (\<lambda>n. getColor col n = Some 0) (nodes graph))"
    using c ch by (intro length_filter_strict [of chosen]) (auto simp: col' getColor_setColor split: if_splits)
  then show ?thesis
    by (simp add: uncoloredCount_def)
qed

function dsaturLoop :: "GraphData \<Rightarrow> int \<Rightarrow> (nat \<Rightarrow> nat) \<times> Coloring \<Rightarrow> error + Coloring" where
  "dsaturLoop graph K sc =
     (if uncoloredCount (nodes graph) (snd sc) > 0 then
        (case dsaturStep graph K sc of
           Inl e \<Rightarrow> Inl e
         | Inr sc' \<Rightarrow> dsaturLoop graph K sc')
      else Inr (snd sc))"
  by pat_completeness auto
termination
proof (relation "measure (\<lambda>(graph, K, sc). uncoloredCount (nodes graph) (snd sc))")
  show "wf (measure (\<lambda>(graph, K, sc). uncoloredCount (nodes graph) (snd sc)))" by simp
next
  fix graph K and sc sc' :: "(nat \<Rightarrow> nat) \<times> Coloring"
  assume "dsaturStep graph K sc = Inr sc'"
  then have "uncoloredCount (nodes graph) (snd sc') < uncoloredCount (nodes graph) (snd sc)"
    using dsaturStep_decreases [of graph K "fst sc" "snd sc" "fst sc'" "snd sc'"] by simp
  then show "((graph, K, sc'), (graph, K, sc))
      \<in> measure (\<lambda>(graph, K, sc). uncoloredCount (nodes graph) (snd sc))"
    by simp
qed

declare dsaturLoop.simps [simp del]

definition runDSATUR :: "GraphData \<Rightarrow> int \<Rightarrow> error + Coloring" where
  "runDSATUR graph K =
     (let col0 = fold (\<lambda>n col. setColor n 0 col) (nodes graph) []
      in case maxDegreeNode (adjacency graph) (nodes graph) of
           Inl e \<Rightarrow> Inl e
         | Inr m \<Rightarrow> dsaturLoop graph K (\<lambda>n. 0, setColor m 1 col0))"

subsection \<open>\<^verbatim>\<open>initPopulation\<close>\<close>

fun initLoop ::
  "GraphData \<Rightarrow> AlgorithmParams \<Rightarrow> nat \<Rightarrow> Individual list \<Rightarrow> rng
   \<Rightarrow> error + (Individual list \<times> rng)" where
  "initLoop graph params 0 population g = Inr (population, g)"
| "initLoop graph params (Suc n) population g =
     (case runDSATUR graph (k params) of
        Inl e \<Rightarrow> Inl e
      | Inr initC \<Rightarrow>
          (case runTabuCol graph (k params) initC (maxIterTabu params) (tabuTenure params) g of
             (res, g') \<Rightarrow> initLoop graph params n (population @ [res]) g'))"

definition initPopulation ::
  "GraphData \<Rightarrow> AlgorithmParams \<Rightarrow> rng \<Rightarrow> error + (Individual list \<times> rng)" where
  "initPopulation graph params g = initLoop graph params (nat (popSize params)) [] g"

section \<open>The greedy colorer returns a complete coloring\<close>

text \<open>The keys of a JavaScript object: ascending, each once.\<close>

definition wfColoring :: "Coloring \<Rightarrow> bool" where
  "wfColoring col = sorted_wrt (<) (map fst col)"

lemma keys_setColor: "fst ` set (setColor v c col) = insert v (fst ` set col)"
proof -
  have "dom (map_of (setColor v c col)) = insert v (dom (map_of col))"
    using getColor_setColor [of v c col] by (auto simp: getColor_def dom_def split: if_splits)
  then show ?thesis by (simp add: dom_map_of_conv_image_fst)
qed

lemma wfColoring_setColor:
  assumes "wfColoring col"
  shows "wfColoring (setColor v c col)"
  using assms
proof (induction col)
  case Nil
  show ?case by (simp add: wfColoring_def)
next
  case (Cons a col)
  obtain w d where a: "a = (w, d)" by (cases a)
  from Cons.prems have wf: "wfColoring col" and lt: "\<forall>x \<in> fst ` set col. w < x"
    by (auto simp: wfColoring_def a)
  show ?case
  proof (cases "v = w \<or> v < w")
    case True
    with Cons.prems show ?thesis by (auto simp: wfColoring_def a)
  next
    case False
    then have "w < v" by simp
    with lt have "\<forall>x \<in> fst ` set (setColor v c col). w < x"
      by (simp add: keys_setColor)
    with Cons.IH [OF wf] False show ?thesis
      by (auto simp: wfColoring_def a)
  qed
qed

lemma wfColoring_entry:
  assumes "wfColoring col"
  shows "(v, c) \<in> set col \<longleftrightarrow> getColor col v = Some c"
proof -
  from assms have "distinct (map fst col)"
    by (simp add: wfColoring_def strict_sorted_iff)
  then show ?thesis by (simp add: getColor_def)
qed

lemma getColor_None: "getColor col v = None \<longleftrightarrow> v \<notin> fst ` set col"
  by (simp add: getColor_def map_of_eq_None_iff)

text \<open>The coloring that holds 0 at every vertex.\<close>

lemma blank_coloring:
  "wfColoring col \<Longrightarrow> wfColoring (fold (\<lambda>n col. setColor n 0 col) ns col)"
  "fst ` set (fold (\<lambda>n col. setColor n 0 col) ns col) = set ns \<union> fst ` set col"
  "(\<forall>v. getColor col v \<in> {None, Some 0})
     \<Longrightarrow> getColor (fold (\<lambda>n col. setColor n 0 col) ns col) v \<in> {None, Some 0}"
proof (induction ns arbitrary: col)
  case Nil
  { case 1 then show ?case by simp }
  { case 2 show ?case by simp }
  { case 3 then show ?case by simp }
next
  case (Cons n ns)
  { case 1 then show ?case using Cons(1) [of "setColor n 0 col"] by (simp add: wfColoring_setColor) }
  { case 2 show ?case using Cons(2) [of "setColor n 0 col"] by (simp add: keys_setColor) }
  { case 3 then show ?case using Cons(3) [of "setColor n 0 col"] by (simp add: getColor_setColor) }
qed

text \<open>What holds of the coloring under construction at the start of every round.\<close>

definition dsaturInv :: "GraphData \<Rightarrow> int \<Rightarrow> Coloring \<Rightarrow> bool" where
  "dsaturInv graph K col =
     (wfColoring col \<and> fst ` set col = set (nodes graph)
      \<and> (\<forall>v \<in> set (nodes graph). \<exists>c. getColor col v = Some c \<and> 0 \<le> c \<and> c \<le> K))"

lemma dsaturInv_setColor:
  assumes "dsaturInv graph K col" "chosen \<in> set (nodes graph)" "1 \<le> c" "c \<le> K"
  shows "dsaturInv graph K (setColor chosen c col)"
  using assms
  by (auto simp: dsaturInv_def wfColoring_setColor keys_setColor getColor_setColor)

lemma dsaturStep_ok:
  assumes "1 \<le> K" "dsaturInv graph K col" "0 < uncoloredCount (nodes graph) col"
  shows "\<exists>sat' col'. dsaturStep graph K (sat, col) = Inr (sat', col') \<and> dsaturInv graph K col'"
proof -
  let ?sat = "updateSaturation (adjacency graph) (nodes graph) col sat"
  let ?unc = "filter (\<lambda>n. getColor col n = Some 0) (nodes graph)"
  let ?sorted = "sort_key (\<lambda>n. (- int (?sat n), - int (degreeOf (adjacency graph) n))) ?unc"
  from assms(3) have "?unc \<noteq> []" by (simp add: uncoloredCount_def)
  then have "?sorted \<noteq> []" by (metis length_0_conv length_sort)
  then obtain chosen rest where s: "?sorted = chosen # rest" by (cases ?sorted) auto
  from assms(1) have "\<not> K + 1 < 0" by simp
  with s have "\<exists>sat' col'. dsaturStep graph K (sat, col) = Inr (sat', col')"
    by (simp add: dsaturStep_def Let_def)
  then obtain sat' col' where r: "dsaturStep graph K (sat, col) = Inr (sat', col')"
    by blast
  from dsaturStep_colors [OF r] assms(1) obtain ch c
    where "ch \<in> set (nodes graph)" "1 \<le> c" "c \<le> K" "col' = setColor ch c col" by blast
  with dsaturInv_setColor [OF assms(2)] r show ?thesis by blast
qed

lemma dsaturLoop_ok:
  assumes "1 \<le> K" "dsaturInv graph K (snd sc)"
  shows "\<exists>col. dsaturLoop graph K sc = Inr col \<and> dsaturInv graph K col
           \<and> uncoloredCount (nodes graph) col = 0"
  using assms
proof (induction graph K sc rule: dsaturLoop.induct)
  case (1 graph K sc)
  show ?case
  proof (cases "0 < uncoloredCount (nodes graph) (snd sc)")
    case False
    then have "dsaturLoop graph K sc = Inr (snd sc)"
      by (subst dsaturLoop.simps) simp
    with False "1.prems" show ?thesis by simp
  next
    case True
    from dsaturStep_ok [OF "1.prems"(1,2) True, of "fst sc"]
    obtain sat' col' where s: "dsaturStep graph K sc = Inr (sat', col')"
      and i: "dsaturInv graph K col'" by auto
    from True s have "dsaturLoop graph K sc = dsaturLoop graph K (sat', col')"
      by (subst dsaturLoop.simps) simp
    with "1.IH" [OF True s "1.prems"(1)] i show ?thesis by simp
  qed
qed

lemma maxDegreeNode_ok:
  assumes "ns \<noteq> []"
  shows "\<exists>m. maxDegreeNode adj ns = Inr m \<and> m \<in> set ns"
proof -
  have "fold (\<lambda>b a. if degreeOf adj a > degreeOf adj b then a else b) rest n \<in> set (n # rest)"
    for rest n
  proof (induction rest arbitrary: n)
    case Nil
    show ?case by simp
  next
    case (Cons b rest)
    from Cons [of "if degreeOf adj n > degreeOf adj b then n else b"]
    show ?case by (auto split: if_splits)
  qed
  with assms show ?thesis
    by (cases ns) (auto simp: maxDegreeNode_def)
qed

text \<open>
  On a graph with at least one vertex and for \<open>k \<ge> 1\<close>, \<open>runDSATUR\<close> returns a coloring whose
  keys are the vertices of the graph and whose colors all lie in \<open>1..k\<close>.
\<close>

lemma runDSATUR_complete:
  assumes "nodes graph \<noteq> []" "1 \<le> K"
  shows "\<exists>col. runDSATUR graph K = Inr col \<and> wfColoring col
           \<and> fst ` set col = set (nodes graph)
           \<and> (\<forall>(v, c) \<in> set col. 1 \<le> c \<and> c \<le> K)"
proof -
  let ?col0 = "fold (\<lambda>n col. setColor n 0 col) (nodes graph) []"
  obtain m where m: "maxDegreeNode (adjacency graph) (nodes graph) = Inr m" "m \<in> set (nodes graph)"
    using maxDegreeNode_ok [OF assms(1)] by blast
  have wf0: "wfColoring ?col0" by (rule blank_coloring(1)) (simp add: wfColoring_def)
  have k0: "fst ` set ?col0 = set (nodes graph)" by (simp add: blank_coloring(2))
  have v0: "getColor ?col0 v \<in> {None, Some 0}" for v
    by (rule blank_coloring(3)) (simp add: getColor_def)
  have "getColor ?col0 v = Some 0" if "v \<in> set (nodes graph)" for v
    using v0 [of v] that k0 by (auto simp: getColor_None)
  with wf0 k0 assms(2) have "dsaturInv graph K ?col0"
    by (auto simp: dsaturInv_def)
  from dsaturInv_setColor [OF this m(2), of 1] assms(2)
  have "dsaturInv graph K (setColor m 1 ?col0)" by simp
  from dsaturLoop_ok [OF assms(2), of graph "(\<lambda>n. 0, setColor m 1 ?col0)"] this
  obtain col where l: "dsaturLoop graph K (\<lambda>n. 0, setColor m 1 ?col0) = Inr col"
    and i: "dsaturInv graph K col" and u: "uncoloredCount (nodes graph) col = 0"
    by auto
  have "1 \<le> c \<and> c \<le> K" if "(v, c) \<in> set col" for v c
  proof -
    from i have wf: "wfColoring col" and keys: "fst ` set col = set (nodes graph)"
      by (simp_all add: dsaturInv_def)
    from that keys have v: "v \<in> set (nodes graph)" by force
    from that wf have g: "getColor col v = Some c" by (simp add: wfColoring_entry)
    from u v have "getColor col v \<noteq> Some 0"
      by (auto simp: uncoloredCount_def filter_empty_conv)
    with i v g show ?thesis by (auto simp: dsaturInv_def)
  qed
  with l i m(1) show ?thesis
    by (auto simp: runDSATUR_def Let_def dsaturInv_def)
qed

text \<open>
  C2. The claim also covers the graph without vertices, for which it promises the empty
  coloring. There the \<^verbatim>\<open>reduce\<close> that looks for the vertex of maximum degree runs on an empty
  array: \<open>runDSATUR\<close> raises a \<^verbatim>\<open>TypeError\<close> and returns no coloring.
\<close>

theorem runDSATUR_empty_graph_throws:
  "runDSATUR \<lparr>nodes = [], adjacency = []\<rparr> 3 = Inl TypeError"
  by (simp add: runDSATUR_def maxDegreeNode_def)

section \<open>Concrete runs\<close>

text \<open>
  The complete graph on three vertices, and the state the refiner reaches on it after two
  iterations from the seed that colors every vertex 1, with \<open>k = 2\<close>, tenure 1 and a random
  source that always yields 1/2.
\<close>

definition triangle :: GraphData where
  "triangle = \<lparr>nodes = [1, 2, 3], adjacency = [(1, [2, 3]), (2, [1, 3]), (3, [1, 2])]\<rparr>"

definition lockedState :: TabuState where
  "lockedState =
     \<lparr>currentS = [(1, 2), (2, 2), (3, 1)], bestS = [(1, 2), (2, 1), (3, 1)],
      currentConflicts = 1, bestSConflicts = 1,
      tabuMatrix = (\<lambda>n c. 0) (1 := (\<lambda>c. 0) (Some 1 := 3), 2 := (\<lambda>c. 0) (Some 1 := 4))\<rparr>"

text \<open>The tabu test as the claim words it: forbidden while the iteration is below the stored index.\<close>

definition claimedTabu :: "TabuState \<Rightarrow> int \<Rightarrow> nat \<Rightarrow> int \<Rightarrow> bool" where
  "claimedTabu st iter u color = (iter < tabuMatrix st u (Some color))"

text \<open>The equations that evaluate a run of the refiner.\<close>

lemmas tabu_eval = ensureColors_def fixColor_def getColor_def initialState_def countConflicts_def
  tabuIteration_def conflictedNodes_def neighborsOf_def findBestMove_def exploreNode_def
  considerColor_def candidate_def nodeConflicts_def applyMove_def randomMove_def randomBelow_def
  randomColor_def mathRandom_def probZero.rep_eq probHalf.rep_eq Let_def upto.simps

text \<open>
  C3 (amended). In every iteration the move search considers exactly the eligible
  candidates: it returns no move iff no candidate move is eligible, and otherwise a candidate
  that is eligible and of least \<open>delta\<close> among the eligible ones. A candidate is eligible iff
  it is not tabu, where it is tabu exactly while the current iteration is less than or equal
  to the index stored for its (vertex, color), or the running total plus its \<open>delta\<close> is
  strictly below the best total.
\<close>

theorem findBestMove_eligible:
  "(case fst (findBestMove graph K st iter conflicted g) of
      None \<Rightarrow> \<forall>(u, color) \<in> set (candidateMoves K st conflicted). \<not> eligible graph st iter u color
    | Some m \<Rightarrow>
        (\<exists>(u, color) \<in> set (candidateMoves K st conflicted).
            m = candidate graph st u color \<and> eligible graph st iter u color)
        \<and> (\<forall>(u, color) \<in> set (candidateMoves K st conflicted).
              eligible graph st iter u color \<longrightarrow> delta m \<le> delta (candidate graph st u color)))
   \<and> (\<forall>u color. eligible graph st iter u color \<longleftrightarrow>
         (\<not> iter \<le> tabuMatrix st u (Some color)
          \<or> currentConflicts st + of_int (delta (candidate graph st u color)) < bestSConflicts st))"
  using findBestMove_bestAmong [of graph st iter K conflicted g]
  by (simp add: bestAmong_def eligible_def isTabu_def isAspiration_def)

theorem findBestMove_eligible_witness:
  "fst (findBestMove triangle 2 (initialState triangle [(1, 1), (2, 1), (3, 1)]) 1 [1, 2, 3]
          (sconst probHalf))
     = Some \<lparr>node = 1, oldColor = Some 1, newColor = 2, delta = - 2\<rparr>
   \<and> (\<exists>(u, color) \<in> set (candidateMoves 2 (initialState triangle [(1, 1), (2, 1), (3, 1)]) [1, 2, 3]).
         \<lparr>node = 1, oldColor = Some 1, newColor = 2, delta = - 2\<rparr>
           = candidate triangle (initialState triangle [(1, 1), (2, 1), (3, 1)]) u color
         \<and> eligible triangle (initialState triangle [(1, 1), (2, 1), (3, 1)]) 1 u color)"
proof -
  have e: "fst (findBestMove triangle 2 (initialState triangle [(1, 1), (2, 1), (3, 1)]) 1 [1, 2, 3]
          (sconst probHalf))
     = Some \<lparr>node = 1, oldColor = Some 1, newColor = 2, delta = - 2\<rparr>"
    by (simp add: triangle_def tabu_eval)
  note t = findBestMove_eligible [where graph = triangle and K = 2
      and st = "initialState triangle [(1, 1), (2, 1), (3, 1)]" and iter = 1
      and conflicted = "[1, 2, 3]" and g = "sconst probHalf"]
  from t [unfolded e option.case, THEN conjunct1, THEN conjunct1] e
  show ?thesis by (rule conjI [rotated])
qed

text \<open>
  The claim as worded fails at the boundary. At iteration 3 of this run the move of vertex 1
  back to color 1 has the stored index 3: under the claim's test it is not tabu and so
  eligible, while the source treats it as tabu and finds no move at all.
\<close>

theorem tabu_boundary_counterexample:
  "tabuRun triangle 2 1 2 (initialState triangle [(1, 1), (2, 1), (3, 1)], sconst probHalf)
     = Some (lockedState, sconst probHalf)
   \<and> conflictedNodes triangle (currentS lockedState) = [1, 2]
   \<and> (1, 1) \<in> set (candidateMoves 2 lockedState [1, 2])
   \<and> tabuMatrix lockedState 1 (Some 1) = 3
   \<and> \<not> claimedTabu lockedState 3 1 1
   \<and> fst (findBestMove triangle 2 lockedState 3 [1, 2] (sconst probHalf)) = None"
proof -
  have 1: "tabuRun triangle 2 1 2 (initialState triangle [(1, 1), (2, 1), (3, 1)], sconst probHalf)
     = Some (lockedState, sconst probHalf)"
    by (simp add: triangle_def lockedState_def tabu_eval numeral_2_eq_2)
  have 2: "conflictedNodes triangle (currentS lockedState) = [1, 2]"
    by (simp add: triangle_def lockedState_def tabu_eval)
  have 3: "(1, 1) \<in> set (candidateMoves 2 lockedState [1, 2])"
    by (simp add: candidateMoves_def lockedState_def tabu_eval)
  have 4: "tabuMatrix lockedState 1 (Some 1) = 3"
    by (simp add: lockedState_def)
  have 5: "fst (findBestMove triangle 2 lockedState 3 [1, 2] (sconst probHalf)) = None"
    by (simp add: triangle_def lockedState_def tabu_eval)
  from 1 2 3 4 5 show ?thesis by (simp add: claimedTabu_def)
qed



text \<open>
  C8. The claim says every seed color outside \<open>1..k\<close>, the sentinel 0 included, is redrawn
  before the search. The source redraws only the colors above \<open>k\<close>: from the seed below,
  vertex 2 keeps the color 0 in the returned coloring (and the returned total, 0, is not the
  conflict count of the returned coloring, 1).
\<close>

theorem runTabuCol_keeps_color_zero:
  "runTabuCol \<lparr>nodes = [1, 2, 3, 4], adjacency = [(1, [2]), (2, [1]), (3, [4]), (4, [3])]\<rparr>
     2 [(1, 0), (2, 0), (3, 1), (4, 1)] 1 1 (sconst probHalf)
     = (\<lparr>coloring = [(1, 1), (2, 0), (3, 1), (4, 1)], conflicts = 0\<rparr>, sconst probHalf)
   \<and> countConflicts [(1, 1), (2, 0), (3, 1), (4, 1)] [(1, [2]), (2, [1]), (3, [4]), (4, [3])] = 1"
proof -
  have "runTabuCol \<lparr>nodes = [1, 2, 3, 4], adjacency = [(1, [2]), (2, [1]), (3, [4]), (4, [3])]\<rparr>
     2 [(1, 0), (2, 0), (3, 1), (4, 1)] 1 1 (sconst probHalf)
     = (\<lparr>coloring = [(1, 1), (2, 0), (3, 1), (4, 1)], conflicts = 0\<rparr>, sconst probHalf)"
    by (simp add: runTabuCol_def tabu_eval tabuLoop.simps)
  moreover have "countConflicts [(1, 1), (2, 0), (3, 1), (4, 1)]
      [(1, [2]), (2, [1]), (3, [4]), (4, [3])] = 1"
    by (simp add: tabu_eval)
  ultimately show ?thesis by simp
qed

section \<open>Parameters are not validated\<close>

lemma initLoop_ok:
  assumes "nodes graph \<noteq> []" "1 \<le> k params"
  shows "\<exists>pop' g'. initLoop graph params n pop g = Inr (pop', g') \<and> length pop' = length pop + n"
proof (induction n arbitrary: pop g)
  case 0
  show ?case by simp
next
  case (Suc n)
  obtain initC where d: "runDSATUR graph (k params) = Inr initC"
    using runDSATUR_complete [OF assms] by blast
  obtain res g1 where t: "runTabuCol graph (k params) initC (maxIterTabu params) (tabuTenure params) g
      = (res, g1)"
    by (cases "runTabuCol graph (k params) initC (maxIterTabu params) (tabuTenure params) g")
  from Suc [of "pop @ [res]" g1] show ?case by (simp add: d t)
qed

lemma runTabuCol_no_budget:
  assumes "maxIter < 1"
  shows "runTabuCol graph K seed maxIter tenure g =
     (\<lparr>coloring = fst (ensureColors K seed g),
       conflicts = countConflicts (fst (ensureColors K seed g)) (adjacency graph)\<rparr>,
      snd (ensureColors K seed g))"
proof -
  from assms have "tabuLoop graph K maxIter tenure 1 sg = sg" for sg
    by (subst tabuLoop.simps) simp
  then show ?thesis by (simp add: runTabuCol_unfold initialState_def)
qed

text \<open>
  C9 (amended). No entry point validates its parameters or raises an error of its own.
  With \<open>popSize < 1\<close>, \<open>initPopulation\<close> returns the empty population. With an iteration
  budget below 1, \<open>runTabuCol\<close> returns the seed (after the redraw of the colors above \<open>k\<close>)
  with its conflict count, for every \<open>k\<close>. On a graph with at least one vertex and for
  \<open>k \<ge> 1\<close>, \<open>initPopulation\<close> returns \<open>popSize\<close> individuals for every iteration budget. On a
  non-empty population, \<open>runHEAStep\<close> returns for every \<open>k\<close> and every budget. (\<open>runTabuCol\<close>
  has no failing branch at all: its result type has no error.)
\<close>

theorem entry_points_do_not_validate:
  "(popSize params < 1 \<longrightarrow> initPopulation graph params g = Inr ([], g))
   \<and> (maxIter < 1 \<longrightarrow>
        runTabuCol graph K seed maxIter tenure g =
          (\<lparr>coloring = fst (ensureColors K seed g),
            conflicts = countConflicts (fst (ensureColors K seed g)) (adjacency graph)\<rparr>,
           snd (ensureColors K seed g)))
   \<and> (nodes graph \<noteq> [] \<and> 1 \<le> k params \<longrightarrow>
        (\<exists>pop g'. initPopulation graph params g = Inr (pop, g')
                  \<and> length pop = nat (popSize params)))
   \<and> (population \<noteq> [] \<longrightarrow> (\<exists>res g'. runHEAStep population graph params g = Inr (res, g')))"
proof (intro conjI impI)
  assume "popSize params < 1"
  then show "initPopulation graph params g = Inr ([], g)"
    by (simp add: initPopulation_def)
next
  assume "maxIter < 1"
  then show "runTabuCol graph K seed maxIter tenure g =
          (\<lparr>coloring = fst (ensureColors K seed g),
            conflicts = countConflicts (fst (ensureColors K seed g)) (adjacency graph)\<rparr>,
           snd (ensureColors K seed g))"
    by (rule runTabuCol_no_budget)
next
  assume "nodes graph \<noteq> [] \<and> 1 \<le> k params"
  then show "\<exists>pop g'. initPopulation graph params g = Inr (pop, g')
                  \<and> length pop = nat (popSize params)"
    using initLoop_ok [of graph params "nat (popSize params)" "[]" g]
    by (simp add: initPopulation_def)
next
  assume "population \<noteq> []"
  then obtain child g' where "breedChild population graph params g = Inr (child, g')"
    using breedChild_ok by blast
  then show "\<exists>res g'. runHEAStep population graph params g = Inr (res, g')"
    by (simp add: runHEAStep_def)
qed

theorem entry_points_do_not_validate_witness:
  "initPopulation triangle
      \<lparr>k = 2, popSize = 0, maxIterHEA = 5, alpha = 2, tabuTenure = 1, maxIterTabu = 0\<rparr>
      (sconst probHalf) = Inr ([], sconst probHalf)
   \<and> runTabuCol triangle 2 [(1, 1), (2, 1), (3, 1)] 0 1 (sconst probHalf) =
        (\<lparr>coloring = [(1, 1), (2, 1), (3, 1)], conflicts = 3\<rparr>, sconst probHalf)
   \<and> (\<exists>pop g'. initPopulation triangle
          \<lparr>k = 2, popSize = 3, maxIterHEA = 5, alpha = 2, tabuTenure = 1, maxIterTabu = 0\<rparr>
          (sconst probHalf) = Inr (pop, g') \<and> length pop = 3)
   \<and> (\<exists>res g'. runHEAStep [\<lparr>coloring = [(1, 1), (2, 1), (3, 1)], conflicts = 3\<rparr>] triangle
          \<lparr>k = 2, popSize = 3, maxIterHEA = 5, alpha = 2, tabuTenure = 1, maxIterTabu = 0\<rparr>
          (sconst probHalf) = Inr (res, g'))"
proof -
  note t0 = entry_points_do_not_validate [where graph = triangle
      and params = "\<lparr>k = 2, popSize = 0, maxIterHEA = 5, alpha = 2, tabuTenure = 1, maxIterTabu = 0\<rparr>"
      and g = "sconst probHalf" and maxIter = 0 and K = 2 and seed = "[(1, 1), (2, 1), (3, 1)]"
      and tenure = 1 and population = "[\<lparr>coloring = [(1, 1), (2, 1), (3, 1)], conflicts = 3\<rparr>]"]
  note t3 = entry_points_do_not_validate [where graph = triangle
      and params = "\<lparr>k = 2, popSize = 3, maxIterHEA = 5, alpha = 2, tabuTenure = 1, maxIterTabu = 0\<rparr>"
      and g = "sconst probHalf" and maxIter = 0 and K = 2 and seed = "[(1, 1), (2, 1), (3, 1)]"
      and tenure = 1 and population = "[\<lparr>coloring = [(1, 1), (2, 1), (3, 1)], conflicts = 3\<rparr>]"]
  have e: "ensureColors 2 [(1, 1), (2, 1), (3, 1)] (sconst probHalf)
      = ([(1, 1), (2, 1), (3, 1)], sconst probHalf)"
    by (simp add: tabu_eval)
  have c: "countConflicts [(1, 1), (2, 1), (3, 1)] (adjacency triangle) = 3"
    by (simp add: triangle_def tabu_eval)
  have n: "nodes triangle \<noteq> []" by (simp add: triangle_def)
  from t0 have 1: "initPopulation triangle
      \<lparr>k = 2, popSize = 0, maxIterHEA = 5, alpha = 2, tabuTenure = 1, maxIterTabu = 0\<rparr>
      (sconst probHalf) = Inr ([], sconst probHalf)" by simp
  from t0 [unfolded e fst_conv snd_conv c]
  have 2: "runTabuCol triangle 2 [(1, 1), (2, 1), (3, 1)] 0 1 (sconst probHalf) =
        (\<lparr>coloring = [(1, 1), (2, 1), (3, 1)], conflicts = 3\<rparr>, sconst probHalf)"
    by simp
  from t3 n have 3: "\<exists>pop g'. initPopulation triangle
          \<lparr>k = 2, popSize = 3, maxIterHEA = 5, alpha = 2, tabuTenure = 1, maxIterTabu = 0\<rparr>
          (sconst probHalf) = Inr (pop, g') \<and> length pop = 3" by simp
  from t3 have 4: "\<exists>res g'. runHEAStep [\<lparr>coloring = [(1, 1), (2, 1), (3, 1)], conflicts = 3\<rparr>] triangle
          \<lparr>k = 2, popSize = 3, maxIterHEA = 5, alpha = 2, tabuTenure = 1, maxIterTabu = 0\<rparr>
          (sconst probHalf) = Inr (res, g')" by simp
  from 1 2 3 4 show ?thesis by blast
qed

text \<open>
  With \<open>k = 0\<close> and an iteration budget of 0, \<open>initPopulation\<close> does all of its work and
  returns a population; no error is raised.
\<close>

theorem no_InvalidParameter_counterexample:
  "initPopulation \<lparr>nodes = [1], adjacency = [(1, [])]\<rparr>
     \<lparr>k = 0, popSize = 1, maxIterHEA = 0, alpha = 0, tabuTenure = 0, maxIterTabu = 0\<rparr>
     (sconst probZero)
   = Inr ([\<lparr>coloring = [(1, 1)], conflicts = 0\<rparr>], sconst probZero)"
  by (simp add: initPopulation_def runDSATUR_def maxDegreeNode_def dsaturLoop.simps uncoloredCount_def
      runTabuCol_def tabu_eval tabuLoop.simps)

text \<open>For \<open>k \<le> -2\<close> the greedy colorer fails in its first round, with a \<^verbatim>\<open>RangeError\<close>.\<close>

lemma runDSATUR_negative_k:
  "runDSATUR \<lparr>nodes = [1, 2], adjacency = [(1, []), (2, [])]\<rparr> (- 2) = Inl RangeError"
  by (simp add: runDSATUR_def maxDegreeNode_def dsaturLoop.simps uncoloredCount_def getColor_def
      dsaturStep_def updateSaturation_def getSaturation_def neighborColors_def neighborsOf_def
      degreeOf_def firstUnused.simps Let_def)

section \<open>The crossover slot by slot\<close>

























end
